theory Spec2Isabelle
  imports Main "HOL-Library.Sublist" "HOL-Library.Multiset"
begin

section \<open>Memex unified search: the search core of \<^verbatim>\<open>src/search/background/utils.ts\<close>\<close>

text \<open>
  Identifiers (page URLs, annotation URLs) and query strings are JavaScript strings; they
  are modelled as \<^typ>\<open>string\<close>. Timestamps are epoch milliseconds, integral JavaScript
  numbers, modelled as \<^typ>\<open>int\<close>.
\<close>

type_synonym resultId = string

subsection \<open>ResultIntersector: \<^verbatim>\<open>intersectResults\<close>\<close>

text \<open>
  \<^verbatim>\<open>
  const intersectResults = (results: string[][]): string[] =>
      !results.length
          ? []
          : results.reduce((a, b) => {
                const ids = new Set(b)
                return a.filter((id) => ids.has(id))
            })
  \<close>
  \<^verbatim>\<open>reduce\<close> without an initial value starts from the first element and folds the
  callback over the remaining ones, left to right; on a one-element array it returns that
  element without calling the callback.
\<close>

definition intersectStep :: "resultId list \<Rightarrow> resultId list \<Rightarrow> resultId list" where
  "intersectStep a b = filter (\<lambda>id. id \<in> set b) a"

definition intersectResults :: "resultId list list \<Rightarrow> resultId list" where
  "intersectResults results =
     (case results of
        [] \<Rightarrow> []
      | a # rest \<Rightarrow> foldl intersectStep a rest)"

subsection \<open>QueryTokenizer: \<^verbatim>\<open>splitQueryIntoTerms\<close>\<close>

text \<open>
  Strings are lists of \<^typ>\<open>char\<close>; the model covers ASCII text. \<^verbatim>\<open>toLocaleLowerCase\<close>
  maps \<^verbatim>\<open>A\<close>..\<^verbatim>\<open>Z\<close> to \<^verbatim>\<open>a\<close>..\<^verbatim>\<open>z\<close> and leaves every other character alone; the
  white space of \<^verbatim>\<open>trim\<close> and of the regular expression \<^verbatim>\<open>\s\<close> is tab, line feed,
  vertical tab, form feed, carriage return and space.
\<close>

definition toLowerChar :: "char \<Rightarrow> char" where
  "toLowerChar c =
     (let n = (of_char c :: nat) in if 65 \<le> n \<and> n \<le> 90 then char_of (n + 32) else c)"

definition toLocaleLowerCase :: "string \<Rightarrow> string" where
  "toLocaleLowerCase s = map toLowerChar s"

definition isWhitespace :: "char \<Rightarrow> bool" where
  "isWhitespace c = ((of_char c :: nat) \<in> {9, 10, 11, 12, 13, 32})"

definition trim :: "string \<Rightarrow> string" where
  "trim s = rev (dropWhile isWhitespace (rev (dropWhile isWhitespace s)))"

definition dquote :: char where
  "dquote = CHR 0x22"

text \<open>
  \<^verbatim>\<open>s.split(sep)\<close> on a one-character separator: a string with \<open>n\<close> separators gives
  \<open>n + 1\<close> fragments, empty ones included.
\<close>

fun splitOnChar :: "char \<Rightarrow> string \<Rightarrow> string list" where
  "splitOnChar sep [] = [[]]"
| "splitOnChar sep (c # cs) =
     (if c = sep then [] # splitOnChar sep cs
      else (case splitOnChar sep cs of
              [] \<Rightarrow> [[c]]
            | f # fs \<Rightarrow> (c # f) # fs))"

text \<open>\<^verbatim>\<open>s.split(/\s+/)\<close>: every maximal run of white space is one separator.\<close>

function splitOnWhitespace :: "string \<Rightarrow> string list" where
  "splitOnWhitespace [] = [[]]"
| "splitOnWhitespace (c # cs) =
     (if isWhitespace c then [] # splitOnWhitespace (dropWhile isWhitespace cs)
      else (case splitOnWhitespace cs of
              [] \<Rightarrow> [[c]]
            | f # fs \<Rightarrow> (c # f) # fs))"
  by pat_completeness auto
termination
  by (relation "measure length") (auto simp: length_dropWhile_le le_imp_less_Suc)

text \<open>\<^verbatim>\<open>.filter(Boolean)\<close> on an array of strings drops the empty strings.\<close>

definition filterBoolean :: "string list \<Rightarrow> string list" where
  "filterBoolean xs = filter (\<lambda>s. s \<noteq> []) xs"

text \<open>
  A JavaScript \<^verbatim>\<open>Set\<close> keeps its elements in insertion order and ignores the insertion
  of an element it already holds; \<^verbatim>\<open>[...set]\<close> lists them in that order.
\<close>

definition setAdd :: "string \<Rightarrow> string list \<Rightarrow> string list" where
  "setAdd x s = (if x \<in> set s then s else s @ [x])"

record splitQuery =
  terms :: "string list"
  phrases :: "string list"

text \<open>
  \<^verbatim>\<open>
  const terms = query.toLocaleLowerCase().split('"').filter(Boolean)
  for (const term of terms) {
      const wasNotDoubleQuoted =
          term.trim().length !== term.length || term === query
      if (wasNotDoubleQuoted) {
          const subTerms = term.split(/\s+/).filter(Boolean)
          subTerms.forEach((subTerm) => discreteTerms.add(subTerm))
      } else {
          phrases.add(term)
      }
  }
  return { terms: [...discreteTerms], phrases: [...phrases] }
  \<close>
  The fragment is compared with \<^verbatim>\<open>query\<close> as the caller passed it, not with its
  lower-cased form.
\<close>

definition wasNotDoubleQuoted :: "string \<Rightarrow> string \<Rightarrow> bool" where
  "wasNotDoubleQuoted query term = (length (trim term) \<noteq> length term \<or> term = query)"

definition tokenizeStep :: "string \<Rightarrow> string \<Rightarrow> splitQuery \<Rightarrow> splitQuery" where
  "tokenizeStep query term st =
     (if wasNotDoubleQuoted query term
      then st\<lparr>terms := fold setAdd (filterBoolean (splitOnWhitespace term)) (terms st)\<rparr>
      else st\<lparr>phrases := setAdd term (phrases st)\<rparr>)"

definition splitQueryIntoTerms :: "string \<Rightarrow> splitQuery" where
  "splitQueryIntoTerms query =
     fold (tokenizeStep query)
       (filterBoolean (splitOnChar dquote (toLocaleLowerCase query)))
       \<lparr>terms = [], phrases = []\<rparr>"

subsection \<open>The store: the four collections the search core reads\<close>

text \<open>
  Rows as the queries of \<^verbatim>\<open>utils.ts\<close> read them. A table is the list of its rows in
  primary-key order. \<^verbatim>\<open>Visit\<close> and \<^verbatim>\<open>Bookmark\<close> rows both carry \<^verbatim>\<open>url\<close> and
  \<^verbatim>\<open>time\<close>. Optional fields (\<^verbatim>\<open>text\<close>, \<^verbatim>\<open>body\<close>, \<^verbatim>\<open>comment\<close>) are options.
\<close>

record page =
  page_url :: string
  page_text :: "string option"
  page_terms :: "string list"
  page_urlTerms :: "string list"
  page_titleTerms :: "string list"

record timedRow =
  row_url :: string
  row_time :: int

record annotation =
  annot_url :: string
  annot_pageUrl :: string
  annot_body :: "string option"
  annot_comment :: "string option"
  annot_body_terms :: "string list"
  annot_comment_terms :: "string list"
  annot_lastEdited :: int

record store =
  pagesTable :: "page list"
  visitsTable :: "timedRow list"
  bookmarksTable :: "timedRow list"
  annotationsTable :: "annotation list"

subsection \<open>TermIndexQuery: \<^verbatim>\<open>queryAnnotationsByTerms\<close> and \<^verbatim>\<open>queryPagesByTerms\<close>\<close>

text \<open>\<^verbatim>\<open>text.includes(phrase)\<close>: the phrase occurs in the text at some position.\<close>

fun stringIncludes :: "string \<Rightarrow> string \<Rightarrow> bool" where
  "stringIncludes [] phrase = (phrase = [])"
| "stringIncludes (c # cs) phrase = (prefix phrase (c # cs) \<or> stringIncludes cs phrase)"

text \<open>
  \<^verbatim>\<open>
  table.where('_body_terms').equals(term).or('_comment_terms').equals(term).primaryKeys()
  \<close>
  Both fields are multi-entry indexes: a row is found when the term is one of the field's
  entries. The keys are listed in table order; the order Dexie returns them in plays no
  part in what \<open>intersectResults\<close> keeps.
\<close>

definition annotationMatchesTerm :: "string \<Rightarrow> annotation \<Rightarrow> bool" where
  "annotationMatchesTerm term a =
     (term \<in> set (annot_body_terms a) \<or> term \<in> set (annot_comment_terms a))"

text \<open>
  \<^verbatim>\<open>
  table.filter((a) => {
      const inComment = a.comment?.toLocaleLowerCase().includes(phrase)
      const inHighlight =
          'body' in a ? a.body?.toLocaleLowerCase().includes(phrase) : false
      return inComment || inHighlight
  }).primaryKeys()
  \<close>
\<close>

definition annotationMatchesPhrase :: "string \<Rightarrow> annotation \<Rightarrow> bool" where
  "annotationMatchesPhrase phrase a =
     (let inComment = (case annot_comment a of
                         None \<Rightarrow> False
                       | Some c \<Rightarrow> stringIncludes (toLocaleLowerCase c) phrase);
          inHighlight = (case annot_body a of
                           None \<Rightarrow> False
                         | Some b \<Rightarrow> stringIncludes (toLocaleLowerCase b) phrase)
      in inComment \<or> inHighlight)"

definition annotationIdsForTerm :: "store \<Rightarrow> string \<Rightarrow> resultId list" where
  "annotationIdsForTerm st term =
     map annot_url (filter (annotationMatchesTerm term) (annotationsTable st))"

definition annotationIdsForPhrase :: "store \<Rightarrow> string \<Rightarrow> resultId list" where
  "annotationIdsForPhrase st phrase =
     map annot_url (filter (annotationMatchesPhrase phrase) (annotationsTable st))"

definition annotationResultsPerTerm ::
    "store \<Rightarrow> string list \<Rightarrow> string list \<Rightarrow> resultId list list" where
  "annotationResultsPerTerm st ts ps =
     map (annotationIdsForTerm st) ts @ map (annotationIdsForPhrase st) ps"

text \<open>\<^verbatim>\<open>table.bulkGet(ids)\<close>: one slot per requested key, empty where no row has it.\<close>

definition bulkGet :: "annotation list \<Rightarrow> resultId list \<Rightarrow> annotation option list" where
  "bulkGet table ids = map (\<lambda>id. find (\<lambda>a. annot_url a = id) table) ids"

definition queryAnnotationsByTerms ::
    "store \<Rightarrow> string list \<Rightarrow> string list \<Rightarrow> annotation option list" where
  "queryAnnotationsByTerms st ts ps =
     (let resultsPerTerm = annotationResultsPerTerm st ts ps;
          matchingIds = intersectResults resultsPerTerm
      in bulkGet (annotationsTable st) matchingIds)"

text \<open>
  Pages: with \<^verbatim>\<open>opts.startsWithMatching\<close> the three term indexes are searched with
  \<^verbatim>\<open>startsWith(term)\<close>, otherwise with \<^verbatim>\<open>equals(term)\<close>.
\<close>

definition pageMatchesTerm :: "bool \<Rightarrow> string \<Rightarrow> page \<Rightarrow> bool" where
  "pageMatchesTerm startsWithMatching term p =
     (if startsWithMatching
      then list_ex (prefix term) (page_terms p)
           \<or> list_ex (prefix term) (page_urlTerms p)
           \<or> list_ex (prefix term) (page_titleTerms p)
      else term \<in> set (page_terms p)
           \<or> term \<in> set (page_urlTerms p)
           \<or> term \<in> set (page_titleTerms p))"

text \<open>
  \<^verbatim>\<open>table.filter((page) => page.text?.toLocaleLowerCase().includes(phrase)).primaryKeys()\<close>
\<close>

definition pageMatchesPhrase :: "string \<Rightarrow> page \<Rightarrow> bool" where
  "pageMatchesPhrase phrase p =
     (case page_text p of
        None \<Rightarrow> False
      | Some t \<Rightarrow> stringIncludes (toLocaleLowerCase t) phrase)"

definition pageIdsForTerm :: "store \<Rightarrow> bool \<Rightarrow> string \<Rightarrow> resultId list" where
  "pageIdsForTerm st startsWithMatching term =
     map page_url (filter (pageMatchesTerm startsWithMatching term) (pagesTable st))"

definition pageIdsForPhrase :: "store \<Rightarrow> string \<Rightarrow> resultId list" where
  "pageIdsForPhrase st phrase =
     map page_url (filter (pageMatchesPhrase phrase) (pagesTable st))"

definition pageResultsPerTerm ::
    "store \<Rightarrow> bool \<Rightarrow> string list \<Rightarrow> string list \<Rightarrow> resultId list list" where
  "pageResultsPerTerm st startsWithMatching ts ps =
     map (pageIdsForTerm st startsWithMatching) ts @ map (pageIdsForPhrase st) ps"

text \<open>
  \<^verbatim>\<open>
  const latestTimestampByPageUrl = new Map<string, number>()
  const trackLatestTimestamp = ({ url, time }: Visit | Bookmark) =>
      latestTimestampByPageUrl.set(
          url, Math.max(time, latestTimestampByPageUrl.get(url) ?? 0))
  const queryTimestamps = (table) =>
      table.where('url').anyOf(matchingIds).reverse().sortBy('time')
  \<close>
\<close>

definition getOrZero :: "(string \<rightharpoonup> int) \<Rightarrow> string \<Rightarrow> int" where
  "getOrZero m k = (case m k of None \<Rightarrow> 0 | Some t \<Rightarrow> t)"

definition trackLatestTimestamp :: "timedRow \<Rightarrow> (string \<rightharpoonup> int) \<Rightarrow> (string \<rightharpoonup> int)" where
  "trackLatestTimestamp r m = m(row_url r \<mapsto> max (row_time r) (getOrZero m (row_url r)))"

definition queryTimestamps :: "resultId list \<Rightarrow> timedRow list \<Rightarrow> timedRow list" where
  "queryTimestamps matchingIds table =
     rev (sort_key row_time (filter (\<lambda>r. row_url r \<in> set matchingIds) table))"

record pageHit =
  hit_id :: resultId
  latestTimestamp :: int

definition queryPagesByTerms ::
    "store \<Rightarrow> bool \<Rightarrow> string list \<Rightarrow> string list \<Rightarrow> pageHit list" where
  "queryPagesByTerms st startsWithMatching ts ps =
     (let resultsPerTerm = pageResultsPerTerm st startsWithMatching ts ps;
          matchingIds = intersectResults resultsPerTerm;
          visits = queryTimestamps matchingIds (visitsTable st);
          bookmarks = queryTimestamps matchingIds (bookmarksTable st);
          latestTimestampByPageUrl =
            fold trackLatestTimestamp bookmarks (fold trackLatestTimestamp visits Map.empty)
      in map (\<lambda>id. \<lparr>hit_id = id, latestTimestamp = getOrZero latestTimestampByPageUrl id\<rparr>)
           matchingIds)"

subsection \<open>Ranker: \<^verbatim>\<open>sortUnifiedBlankSearchResult\<close>\<close>

text \<open>
  An entry of \<^verbatim>\<open>resultDataByPage\<close> as the comparator reads it: the page-level
  visit/bookmark timestamp and the page's annotations. The collection is a \<^verbatim>\<open>Map\<close>;
  spreading it gives its (page identifier, entry) pairs in insertion order.
\<close>

record pageResultEntry =
  latestPageTimestamp :: int
  annotations :: "annotation list"

type_synonym resultData = "(resultId \<times> pageResultEntry) list"

text \<open>
  \<^verbatim>\<open>Math.max(e.latestPageTimestamp, e.annotations[0]?.lastEdited.valueOf() ?? 0)\<close>
\<close>

definition sortKeyOf :: "pageResultEntry \<Rightarrow> int" where
  "sortKeyOf e =
     max (latestPageTimestamp e)
         (case annotations e of [] \<Rightarrow> 0 | a # _ \<Rightarrow> annot_lastEdited a)"

definition compareEntries :: "resultId \<times> pageResultEntry \<Rightarrow> resultId \<times> pageResultEntry \<Rightarrow> int" where
  "compareEntries x y = sortKeyOf (snd y) - sortKeyOf (snd x)"

text \<open>
  \<^verbatim>\<open>Array.prototype.sort(cmp)\<close> is a stable sort: \<open>x\<close> is placed before \<open>y\<close> when
  \<open>cmp x y < 0\<close> and elements that compare equal keep their order.
\<close>

fun insertByCmp :: "('a \<Rightarrow> 'a \<Rightarrow> int) \<Rightarrow> 'a \<Rightarrow> 'a list \<Rightarrow> 'a list" where
  "insertByCmp cmp x [] = [x]"
| "insertByCmp cmp x (y # ys) =
     (if cmp x y \<le> 0 then x # y # ys else y # insertByCmp cmp x ys)"

definition arraySort :: "('a \<Rightarrow> 'a \<Rightarrow> int) \<Rightarrow> 'a list \<Rightarrow> 'a list" where
  "arraySort cmp xs = foldr (insertByCmp cmp) xs []"

definition sortUnifiedBlankSearchResult :: "resultData \<Rightarrow> resultData" where
  "sortUnifiedBlankSearchResult resultDataByPage = arraySort compareEntries resultDataByPage"

text \<open>
  The activity timestamp in the words of the specification: the maximum of the page-level
  timestamp and the newest annotation's edit time, 0 standing in for an empty annotation
  list.
\<close>

definition activityTimestamp_spec :: "pageResultEntry \<Rightarrow> int" where
  "activityTimestamp_spec e =
     max (latestPageTimestamp e)
         (if annotations e = [] then 0 else Max (annot_lastEdited ` set (annotations e)))"

definition newestFirst :: "annotation list \<Rightarrow> bool" where
  "newestFirst as = sorted_wrt (\<lambda>a b. annot_lastEdited b \<le> annot_lastEdited a) as"

subsubsection \<open>The same function over a store of arrays\<close>

text \<open>
  \<^verbatim>\<open>sort\<close> works in place. To tell the argument from the array that is sorted, arrays
  live in a heap: \<^verbatim>\<open>[...resultDataByPage]\<close> allocates a new array holding the argument's
  pairs, \<^verbatim>\<open>.sort(cmp)\<close> overwrites the array it is called on and returns its address.
\<close>

record heap =
  cells :: "nat \<rightharpoonup> resultData"
  nextFree :: nat

definition heapOk :: "heap \<Rightarrow> bool" where
  "heapOk h = (\<forall>a \<in> dom (cells h). a < nextFree h)"

definition spread :: "heap \<Rightarrow> nat \<Rightarrow> (nat \<times> heap) option" where
  "spread h a =
     (case cells h a of
        None \<Rightarrow> None
      | Some xs \<Rightarrow>
          Some (nextFree h,
                h\<lparr>cells := (cells h)(nextFree h \<mapsto> xs), nextFree := Suc (nextFree h)\<rparr>))"

definition sortInPlace ::
    "(resultId \<times> pageResultEntry \<Rightarrow> resultId \<times> pageResultEntry \<Rightarrow> int) \<Rightarrow> heap \<Rightarrow> nat
       \<Rightarrow> (nat \<times> heap) option" where
  "sortInPlace cmp h a =
     (case cells h a of
        None \<Rightarrow> None
      | Some xs \<Rightarrow> Some (a, h\<lparr>cells := (cells h)(a \<mapsto> arraySort cmp xs)\<rparr>))"

definition sortUnifiedBlankSearchResult_heap :: "heap \<Rightarrow> nat \<Rightarrow> (nat \<times> heap) option" where
  "sortUnifiedBlankSearchResult_heap h resultDataByPage =
     (case spread h resultDataByPage of
        None \<Rightarrow> None
      | Some (copy, h') \<Rightarrow> sortInPlace compareEntries h' copy)"

subsection \<open>BlankSearchPaginator: \<^verbatim>\<open>unifiedBlankSearch\<close>\<close>

text \<open>
  Modelled from the spec: \<^verbatim>\<open>unifiedBlankSearch\<close> (the method of the search background
  module that the tests of \<^verbatim>\<open>unified-search.test.ts\<close> call) is not among the sources;
  only its test suite and the sorter applied to its results are. The definitions of this
  subsection follow sections 2, 3, 4.5 and 7 of the specification; where the specification
  and the expectations of the test suite differ, the test suite is followed, and the place
  says so. The entries have the shape \<open>sortUnifiedBlankSearchResult\<close> reads.
\<close>

record blankSearchParams =
  fromWhen :: "int option"
  untilWhen :: int
  daysToSearch :: int

record blankSearchResult =
  resultDataByPage :: resultData
  resultsExhausted :: bool

datatype searchError = MalformedCursor

definition fromWhenOrDefault :: "blankSearchParams \<Rightarrow> int" where
  "fromWhenOrDefault p = (case fromWhen p of None \<Rightarrow> 0 | Some f \<Rightarrow> f)"

text \<open>
  Modelled from the spec: step 1 of section 4.5, \<^emph>\<open>the window's lower bound is
  \<^verbatim>\<open>untilWhen - daysToSearch*86400000\<close>, clamped to not go below \<^verbatim>\<open>fromWhen\<close>\<close>.
\<close>

definition windowLowerBound :: "blankSearchParams \<Rightarrow> int" where
  "windowLowerBound p = max (fromWhenOrDefault p) (untilWhen p - daysToSearch p * 86400000)"

text \<open>
  Modelled from the spec: the lower bound of the range one call reads. A call without
  \<^verbatim>\<open>fromWhen\<close> reads the window of step 1. The test \<^verbatim>\<open>should return most-recent
  highlights and their pages on unfiltered, unbounded blank search\<close> calls with
  \<^verbatim>\<open>fromWhen: 0\<close>, \<^verbatim>\<open>daysToSearch: 1\<close> and \<^verbatim>\<open>untilWhen: Date.now()\<close> and expects every
  page of the store, with data weeks apart: a \<^verbatim>\<open>fromWhen\<close> the caller gives is the lower
  bound itself.
\<close>

definition searchLowerBound :: "blankSearchParams \<Rightarrow> int" where
  "searchLowerBound p = (case fromWhen p of None \<Rightarrow> windowLowerBound p | Some f \<Rightarrow> f)"

text \<open>Modelled from the spec: step 2, the range read is \<open>[lower bound, untilWhen)\<close>.\<close>

definition inWindow :: "blankSearchParams \<Rightarrow> int \<Rightarrow> bool" where
  "inWindow p t = (searchLowerBound p \<le> t \<and> t < untilWhen p)"

text \<open>
  Modelled from the spec: step 3, aggregation by page identifier. The result is a
  \<^verbatim>\<open>Map\<close>: an insertion-ordered collection with one entry per key.
\<close>

fun upsertEntry ::
    "resultId \<Rightarrow> (pageResultEntry \<Rightarrow> pageResultEntry) \<Rightarrow> pageResultEntry \<Rightarrow> resultData
       \<Rightarrow> resultData" where
  "upsertEntry k f d [] = [(k, d)]"
| "upsertEntry k f d ((k', e) # rest) =
     (if k' = k then (k', f e) # rest else (k', e) # upsertEntry k f d rest)"

text \<open>
  Modelled from the spec: \<^emph>\<open>for each Visit/Bookmark in-window, ensure a PageResultEntry
  exists with activity timestamp = that row's time (taking the max if multiple qualify)\<close>.
\<close>

definition addPageRow :: "timedRow \<Rightarrow> resultData \<Rightarrow> resultData" where
  "addPageRow r rd =
     upsertEntry (row_url r)
       (\<lambda>e. e\<lparr>latestPageTimestamp := max (row_time r) (latestPageTimestamp e)\<rparr>)
       \<lparr>latestPageTimestamp = row_time r, annotations = []\<rparr>
       rd"

text \<open>
  Modelled from the spec: \<^emph>\<open>for each Annotation in-window, ensure/extend the entry's
  annotation list (inserted so the list remains sorted by \<^verbatim>\<open>lastEdited\<close> descending)\<close>.
  An entry that only annotations created has page-level timestamp 0; its activity
  timestamp is then its newest annotation's edit time.
\<close>

fun insertAnnotation :: "annotation \<Rightarrow> annotation list \<Rightarrow> annotation list" where
  "insertAnnotation a [] = [a]"
| "insertAnnotation a (b # bs) =
     (if annot_lastEdited b \<le> annot_lastEdited a then a # b # bs
      else b # insertAnnotation a bs)"

definition addAnnotation :: "annotation \<Rightarrow> resultData \<Rightarrow> resultData" where
  "addAnnotation a rd =
     upsertEntry (annot_pageUrl a)
       (\<lambda>e. e\<lparr>annotations := insertAnnotation a (annotations e)\<rparr>)
       \<lparr>latestPageTimestamp = 0, annotations = [a]\<rparr>
       rd"

definition aggregateWindow :: "store \<Rightarrow> blankSearchParams \<Rightarrow> resultData" where
  "aggregateWindow st p =
     (let visits = filter (\<lambda>r. inWindow p (row_time r)) (visitsTable st);
          bookmarks = filter (\<lambda>r. inWindow p (row_time r)) (bookmarksTable st);
          annots = filter (\<lambda>a. inWindow p (annot_lastEdited a)) (annotationsTable st)
      in fold addAnnotation annots (fold addPageRow bookmarks (fold addPageRow visits [])))"

text \<open>
  Modelled from the spec: the exhaustion flag. The paginator \<^emph>\<open>reports whether older data
  remains\<close> (section 2); exhaustion is the \<^emph>\<open>state indicating no older qualifying data
  remains below the caller's floor bound\<close> (glossary), and \<^verbatim>\<open>resultsExhausted\<close> holds when
  \<^emph>\<open>no further older data exists\<close> (section 3). Older qualifying data is a visit, bookmark
  or annotation whose timestamp is at or above \<^verbatim>\<open>fromWhen\<close> and below the range read.
  Step 4 of section 4.5 words it as \<^verbatim>\<open>windowLowerBound <= fromWhen\<close>, under which no
  such row can exist; the test suite expects the flag also on the empty store
  (\<^verbatim>\<open>should return nothing when no data on blank search\<close>, as sections 7 and 8 say), on
  the unbounded call, and on the last, 30-day window of the paginated test, below which
  the store holds nothing, and expects its absence on the six one-day windows before it.
\<close>

definition storeTimestamps :: "store \<Rightarrow> int list" where
  "storeTimestamps st =
     map row_time (visitsTable st) @ map row_time (bookmarksTable st)
       @ map annot_lastEdited (annotationsTable st)"

definition olderDataRemains :: "store \<Rightarrow> blankSearchParams \<Rightarrow> bool" where
  "olderDataRemains st p =
     list_ex (\<lambda>t. fromWhenOrDefault p \<le> t \<and> t < searchLowerBound p) (storeTimestamps st)"

text \<open>
  Modelled from the spec: section 7, \<^emph>\<open>Malformed cursor: \<^verbatim>\<open>daysToSearch <= 0\<close> or
  \<^verbatim>\<open>untilWhen < fromWhen\<close> fails fast with a validation error\<close>.
\<close>

definition unifiedBlankSearch :: "store \<Rightarrow> blankSearchParams \<Rightarrow> searchError + blankSearchResult" where
  "unifiedBlankSearch st p =
     (if daysToSearch p \<le> 0 \<or> untilWhen p < fromWhenOrDefault p then Inl MalformedCursor
      else Inr \<lparr>resultDataByPage = aggregateWindow st p,
                resultsExhausted = (\<not> olderDataRemains st p)\<rparr>)"


subsection \<open>Terms search: \<^verbatim>\<open>unifiedTermsSearch\<close>\<close>

text \<open>
  Modelled from the spec: \<^verbatim>\<open>unifiedTermsSearch\<close> is not among the sources; the two
  queries it is given, \<open>queryPagesByTerms\<close> and \<open>queryAnnotationsByTerms\<close>, are. Section
  2 gives its data flow: the raw query goes through the tokenizer, the terms and phrases
  through the page query and the annotation query, and the hits are assembled per page
  into entries as section 3 describes them: the page-level timestamp of a page hit, and the
  matching annotations of the page, most recent first. The filters of section 6 are
  delegated to the storage collaborator and are left out.
\<close>

definition addPageHit :: "pageHit \<Rightarrow> resultData \<Rightarrow> resultData" where
  "addPageHit h rd =
     upsertEntry (hit_id h)
       (\<lambda>e. e\<lparr>latestPageTimestamp := max (latestTimestamp h) (latestPageTimestamp e)\<rparr>)
       \<lparr>latestPageTimestamp = latestTimestamp h, annotations = []\<rparr>
       rd"

text \<open>The rows \<open>bulkGet\<close> found; a key without a row leaves an empty slot.\<close>

fun foundRows :: "'a option list \<Rightarrow> 'a list" where
  "foundRows [] = []"
| "foundRows (None # xs) = foundRows xs"
| "foundRows (Some a # xs) = a # foundRows xs"

definition unifiedTermsSearch :: "store \<Rightarrow> string \<Rightarrow> resultData" where
  "unifiedTermsSearch st query =
     (let q = splitQueryIntoTerms query;
          pages = queryPagesByTerms st False (terms q) (phrases q);
          annots = foundRows (queryAnnotationsByTerms st (terms q) (phrases q))
      in fold addAnnotation annots (fold addPageHit pages []))"

subsection \<open>A small store used in the examples\<close>

definition examplePage :: page where
  "examplePage =
     \<lparr>page_url = ''page1'', page_text = Some ''Hello World of pages'',
      page_terms = [''hello'', ''world'', ''pages''], page_urlTerms = [''page1''],
      page_titleTerms = []\<rparr>"

definition exampleHighlight :: annotation where
  "exampleHighlight =
     \<lparr>annot_url = ''page1/#1'', annot_pageUrl = ''page1'', annot_body = Some ''Hello World'',
      annot_comment = None, annot_body_terms = [''hello'', ''world''],
      annot_comment_terms = [], annot_lastEdited = 30\<rparr>"

definition exampleNote :: annotation where
  "exampleNote =
     \<lparr>annot_url = ''page1/#2'', annot_pageUrl = ''page1'', annot_body = None,
      annot_comment = Some ''A note'', annot_body_terms = [],
      annot_comment_terms = [''note''], annot_lastEdited = 50\<rparr>"

definition exampleStore :: store where
  "exampleStore =
     \<lparr>pagesTable = [examplePage],
      visitsTable = [\<lparr>row_url = ''page1'', row_time = 10\<rparr>, \<lparr>row_url = ''page1'', row_time = 40\<rparr>],
      bookmarksTable = [\<lparr>row_url = ''page1'', row_time = 20\<rparr>],
      annotationsTable = [exampleHighlight, exampleNote]\<rparr>"

definition exampleRanking :: resultData where
  "exampleRanking =
     [(''a'', \<lparr>latestPageTimestamp = 100, annotations = []\<rparr>),
      (''b'', \<lparr>latestPageTimestamp = 20, annotations = [exampleNote, exampleHighlight]\<rparr>),
      (''c'', \<lparr>latestPageTimestamp = 200, annotations = []\<rparr>)]"


text \<open>The invariant of an entry of a search result.\<close>

definition entryOk :: "store \<Rightarrow> resultId \<Rightarrow> pageResultEntry \<Rightarrow> bool" where
  "entryOk st k e =
     ((\<forall>a \<in> set (annotations e). annot_pageUrl a = k \<and> a \<in> set (annotationsTable st))
      \<and> newestFirst (annotations e))"

section \<open>Properties of the intersector\<close>

lemma foldl_intersectStep:
  "foldl intersectStep a rest = filter (\<lambda>id. \<forall>b \<in> set rest. id \<in> set b) a"
proof (induction rest arbitrary: a)
  case Nil
  show ?case by simp
next
  case (Cons b rest)
  have "foldl intersectStep a (b # rest) = foldl intersectStep (intersectStep a b) rest"
    by simp
  also have "\<dots> = filter (\<lambda>id. \<forall>c \<in> set rest. id \<in> set c) (intersectStep a b)"
    by (rule Cons.IH)
  also have "\<dots> = filter (\<lambda>id. \<forall>c \<in> set (b # rest). id \<in> set c) a"
    by (auto simp: intersectStep_def intro: filter_cong)
  finally show ?case .
qed

lemma intersectResults_Cons:
  "intersectResults (a # rest) = filter (\<lambda>id. \<forall>b \<in> set (a # rest). id \<in> set b) a"
proof -
  have "intersectResults (a # rest) = filter (\<lambda>id. \<forall>b \<in> set rest. id \<in> set b) a"
    by (simp add: intersectResults_def foldl_intersectStep)
  also have "\<dots> = filter (\<lambda>id. \<forall>b \<in> set (a # rest). id \<in> set b) a"
    by (auto intro: filter_cong)
  finally show ?thesis .
qed

lemma set_intersectResults:
  "results \<noteq> [] \<Longrightarrow> set (intersectResults results) = (\<Inter>b \<in> set results. set b)"
proof (cases results)
  case Nil
  assume "results \<noteq> []"
  with Nil show ?thesis by simp
next
  case (Cons a rest)
  show ?thesis
    unfolding Cons intersectResults_Cons by auto
qed

text \<open>
  C2. On zero input sets \<open>intersectResults\<close> returns the empty sequence. On one or more
  sets it returns exactly the identifiers present in every input set; the survivors are
  the elements of the first set that pass, in the first set's order; a single set is
  returned unchanged.
\<close>

theorem intersectResults_spec:
  "intersectResults [] = []
   \<and> (results \<noteq> [] \<longrightarrow>
        set (intersectResults results) = {id. \<forall>b \<in> set results. id \<in> set b}
        \<and> intersectResults results
            = filter (\<lambda>id. \<forall>b \<in> set results. id \<in> set b) (hd results))
   \<and> intersectResults [a] = a"
proof (intro conjI impI)
  show "intersectResults [] = []"
    by (simp add: intersectResults_def)
next
  assume ne: "results \<noteq> []"
  then show "set (intersectResults results) = {id. \<forall>b \<in> set results. id \<in> set b}"
    by (auto simp: set_intersectResults)
next
  assume ne: "results \<noteq> []"
  then obtain x rest where r: "results = x # rest"
    by (cases results) auto
  show "intersectResults results
          = filter (\<lambda>id. \<forall>b \<in> set results. id \<in> set b) (hd results)"
    unfolding r by (simp only: intersectResults_Cons list.sel)
next
  show "intersectResults [a] = a"
    by (simp add: intersectResults_def)
qed

theorem intersectResults_spec_witness:
  "[[''p1'', ''p2'', ''p3''], [''p3'', ''p1'']] \<noteq> []
   \<and> set (intersectResults [[''p1'', ''p2'', ''p3''], [''p3'', ''p1'']])
       = {id. \<forall>b \<in> set [[''p1'', ''p2'', ''p3''], [''p3'', ''p1'']]. id \<in> set b}
   \<and> intersectResults [[''p1'', ''p2'', ''p3''], [''p3'', ''p1'']]
       = filter (\<lambda>id. \<forall>b \<in> set [[''p1'', ''p2'', ''p3''], [''p3'', ''p1'']]. id \<in> set b)
           (hd [[''p1'', ''p2'', ''p3''], [''p3'', ''p1'']])"
proof -
  have ne: "[[''p1'', ''p2'', ''p3''], [''p3'', ''p1'']] \<noteq> []"
    by simp
  from intersectResults_spec [of "[[''p1'', ''p2'', ''p3''], [''p3'', ''p1'']]" "[]"] ne
  show ?thesis
    by blast
qed

text \<open>
  C3. Algebraic laws: intersecting \<open>[A, B]\<close> and \<open>[B, A]\<close> gives the same set of
  elements; intersecting \<open>[A, A]\<close> gives \<open>A\<close>; and when at least one input set is supplied
  and any one of them is empty, the result is empty.
\<close>

theorem intersectResults_laws:
  "set (intersectResults [A, B]) = set (intersectResults [B, A])
   \<and> intersectResults [A, A] = A
   \<and> (results \<noteq> [] \<and> [] \<in> set results \<longrightarrow> intersectResults results = [])"
proof (intro conjI impI)
  show "set (intersectResults [A, B]) = set (intersectResults [B, A])"
    by (auto simp: intersectResults_def intersectStep_def)
next
  show "intersectResults [A, A] = A"
    by (simp add: intersectResults_def intersectStep_def)
next
  assume h: "results \<noteq> [] \<and> [] \<in> set results"
  then have "set (intersectResults results) = (\<Inter>b \<in> set results. set b)"
    by (simp add: set_intersectResults)
  also from h have "\<dots> \<subseteq> set ([] :: resultId list)"
    by blast
  finally show "intersectResults results = []"
    by simp
qed

theorem intersectResults_laws_witness:
  "[[''p1'', ''p2''], [], [''p1'']] \<noteq> [] \<and> [] \<in> set [[''p1'', ''p2''], [], [''p1'']]
   \<and> intersectResults [[''p1'', ''p2''], [], [''p1'']] = []"
proof -
  have h: "[[''p1'', ''p2''], [], [''p1'']] \<noteq> [] \<and> [] \<in> set [[''p1'', ''p2''], [], [''p1'']]"
    by simp
  from intersectResults_laws [of "[]" "[]" "[[''p1'', ''p2''], [], [''p1'']]"] h
  show ?thesis
    by blast
qed

section \<open>Properties of the tokenizer\<close>

lemma toLowerChar_idem: "toLowerChar (toLowerChar c) = toLowerChar c"
  by (auto simp: toLowerChar_def Let_def)

lemma toLocaleLowerCase_fixed:
  "set p \<subseteq> set (toLocaleLowerCase q) \<Longrightarrow> toLocaleLowerCase p = p"
proof -
  assume sub: "set p \<subseteq> set (toLocaleLowerCase q)"
  have "\<forall>c \<in> set p. toLowerChar c = c"
  proof
    fix c assume "c \<in> set p"
    with sub obtain d where "c = toLowerChar d"
      by (auto simp: toLocaleLowerCase_def)
    then show "toLowerChar c = c"
      by (simp add: toLowerChar_idem)
  qed
  then show ?thesis
    by (simp add: toLocaleLowerCase_def map_idI)
qed

lemma splitOnChar_chars_all: "\<forall>f \<in> set (splitOnChar sep s). set f \<subseteq> set s"
proof (induction s)
  case Nil
  show ?case by simp
next
  case (Cons c cs)
  show ?case
  proof (cases "c = sep")
    case True
    with Cons.IH show ?thesis by auto
  next
    case False
    show ?thesis
    proof (cases "splitOnChar sep cs")
      case Nil
      with False show ?thesis by simp
    next
      case (Cons f fs)
      with Cons.IH have "set f \<subseteq> set cs" and "\<forall>g \<in> set fs. set g \<subseteq> set cs"
        by simp_all
      with False Cons show ?thesis by auto
    qed
  qed
qed

lemma splitOnChar_chars: "f \<in> set (splitOnChar sep s) \<Longrightarrow> set f \<subseteq> set s"
  using splitOnChar_chars_all by blast

lemma phrases_tokenizeStep:
  "set (phrases (tokenizeStep q t st)) \<subseteq> insert t (set (phrases st))"
  by (auto simp: tokenizeStep_def setAdd_def)

lemma phrases_fold_tokenizeStep:
  "set (phrases (fold (tokenizeStep q) ts st)) \<subseteq> set ts \<union> set (phrases st)"
proof (induction ts arbitrary: st)
  case Nil
  show ?case by simp
next
  case (Cons t ts)
  have "set (phrases (fold (tokenizeStep q) (t # ts) st))
          \<subseteq> set ts \<union> set (phrases (tokenizeStep q t st))"
    using Cons.IH by simp
  also have "\<dots> \<subseteq> set (t # ts) \<union> set (phrases st)"
    using phrases_tokenizeStep [of q t st] by auto
  finally show ?case .
qed

lemma phrase_is_lower_case:
  assumes "p \<in> set (phrases (splitQueryIntoTerms q))"
  shows "toLocaleLowerCase p = p"
proof -
  from assms phrases_fold_tokenizeStep
  have "p \<in> set (filterBoolean (splitOnChar dquote (toLocaleLowerCase q)))"
    unfolding splitQueryIntoTerms_def by fastforce
  then have "p \<in> set (splitOnChar dquote (toLocaleLowerCase q))"
    by (simp add: filterBoolean_def)
  then have "set p \<subseteq> set (toLocaleLowerCase q)"
    by (rule splitOnChar_chars)
  then show ?thesis
    by (rule toLocaleLowerCase_fixed)
qed

text \<open>
  C5. \<open>splitQueryIntoTerms\<close> on \<^verbatim>\<open>foo "bar baz" qux\<close> yields the terms \<open>foo\<close>, \<open>qux\<close> and
  the phrase \<open>bar baz\<close>; on the empty query it yields no terms and no phrases.
\<close>

theorem splitQueryIntoTerms_examples:
  "splitQueryIntoTerms (''foo '' @ [dquote] @ ''bar baz'' @ [dquote] @ '' qux'')
     = \<lparr>terms = [''foo'', ''qux''], phrases = [''bar baz'']\<rparr>
   \<and> splitQueryIntoTerms [] = \<lparr>terms = [], phrases = []\<rparr>"
  by code_simp

text \<open>
  C4. The claim: every fragment that was not enclosed in double quotes is split on white
  space into terms, and every fragment that was inside quotes is kept whole as a phrase.
  The code decides whether a fragment was quoted from its shape alone, and compares it with
  the query before lower-casing: the unquoted query \<^verbatim>\<open>Foo bar\<close> is kept whole as the
  phrase \<open>foo bar\<close>, and the quoted fragment of \<^verbatim>\<open>" foo bar "\<close> is split into terms.
\<close>

theorem splitQueryIntoTerms_misjudges_quoting:
  "splitQueryIntoTerms ''Foo bar'' = \<lparr>terms = [], phrases = [''foo bar'']\<rparr>
   \<and> splitQueryIntoTerms ([dquote] @ '' foo bar '' @ [dquote])
       = \<lparr>terms = [''foo'', ''bar''], phrases = []\<rparr>"
  by code_simp

section \<open>Properties of the term and phrase queries\<close>

lemma stringIncludes_sublist: "stringIncludes s p \<longleftrightarrow> sublist p s"
  by (induction s) (auto simp: sublist_Cons_right)

lemma annotationMatchesPhrase_iff:
  "annotationMatchesPhrase p a \<longleftrightarrow>
     (\<exists>c. annot_comment a = Some c \<and> sublist p (toLocaleLowerCase c))
     \<or> (\<exists>b. annot_body a = Some b \<and> sublist p (toLocaleLowerCase b))"
  by (auto simp: annotationMatchesPhrase_def stringIncludes_sublist split: option.splits)

lemma pageMatchesPhrase_iff:
  "pageMatchesPhrase p pg \<longleftrightarrow> (\<exists>t. page_text pg = Some t \<and> sublist p (toLocaleLowerCase t))"
  by (auto simp: pageMatchesPhrase_def stringIncludes_sublist split: option.splits)

lemma phrase_scan_ignores_annotation_indexes:
  "map annot_url (filter (annotationMatchesPhrase p)
     (map (\<lambda>a. a\<lparr>annot_body_terms := bt a, annot_comment_terms := ct a\<rparr>) as))
   = map annot_url (filter (annotationMatchesPhrase p) as)"
  by (induction as) (simp_all add: annotationMatchesPhrase_def)

lemma phrase_scan_ignores_page_indexes:
  "map page_url (filter (pageMatchesPhrase p)
     (map (\<lambda>pg. pg\<lparr>page_terms := f pg, page_urlTerms := g pg, page_titleTerms := h pg\<rparr>) pgs))
   = map page_url (filter (pageMatchesPhrase p) pgs)"
  by (induction pgs) (simp_all add: pageMatchesPhrase_def)

text \<open>
  C7. For every phrase the tokenizer produces (it is lower-cased), the per-phrase candidate
  set of \<open>queryAnnotationsByTerms\<close> holds an annotation exactly when the phrase occurs in
  its lower-cased comment or in its lower-cased highlighted body, and that of
  \<open>queryPagesByTerms\<close> holds a page exactly when the phrase occurs in its lower-cased body
  text: a case-insensitive substring scan. The scan reads the text fields only: whatever
  the term indexes hold, the candidates are the same. Both functions intersect the per-term
  and the per-phrase candidate sets.
\<close>

theorem phrase_matching_scans_text:
  assumes "p \<in> set (phrases (splitQueryIntoTerms query))"
  shows "toLocaleLowerCase p = p
    \<and> (k \<in> set (annotationIdsForPhrase st p) \<longleftrightarrow>
         (\<exists>a \<in> set (annotationsTable st). annot_url a = k
            \<and> ((\<exists>c. annot_comment a = Some c \<and> sublist p (toLocaleLowerCase c))
               \<or> (\<exists>b. annot_body a = Some b \<and> sublist p (toLocaleLowerCase b)))))
    \<and> (k \<in> set (pageIdsForPhrase st p) \<longleftrightarrow>
         (\<exists>pg \<in> set (pagesTable st). page_url pg = k
            \<and> (\<exists>t. page_text pg = Some t \<and> sublist p (toLocaleLowerCase t))))
    \<and> annotationIdsForPhrase
         (st\<lparr>annotationsTable :=
               map (\<lambda>a. a\<lparr>annot_body_terms := bt a, annot_comment_terms := ct a\<rparr>)
                 (annotationsTable st)\<rparr>) p
       = annotationIdsForPhrase st p
    \<and> pageIdsForPhrase
         (st\<lparr>pagesTable :=
               map (\<lambda>pg. pg\<lparr>page_terms := f pg, page_urlTerms := g pg, page_titleTerms := h pg\<rparr>)
                 (pagesTable st)\<rparr>) p
       = pageIdsForPhrase st p
    \<and> queryAnnotationsByTerms st ts ps
       = bulkGet (annotationsTable st)
           (intersectResults
              (map (annotationIdsForTerm st) ts @ map (annotationIdsForPhrase st) ps))
    \<and> map hit_id (queryPagesByTerms st swm ts ps)
       = intersectResults (map (pageIdsForTerm st swm) ts @ map (pageIdsForPhrase st) ps)"
proof -
  have 1: "toLocaleLowerCase p = p"
    using assms by (rule phrase_is_lower_case)
  have 2: "k \<in> set (annotationIdsForPhrase st p) \<longleftrightarrow>
         (\<exists>a \<in> set (annotationsTable st). annot_url a = k
            \<and> ((\<exists>c. annot_comment a = Some c \<and> sublist p (toLocaleLowerCase c))
               \<or> (\<exists>b. annot_body a = Some b \<and> sublist p (toLocaleLowerCase b))))"
    unfolding annotationIdsForPhrase_def by (auto simp: annotationMatchesPhrase_iff)
  have 3: "k \<in> set (pageIdsForPhrase st p) \<longleftrightarrow>
         (\<exists>pg \<in> set (pagesTable st). page_url pg = k
            \<and> (\<exists>t. page_text pg = Some t \<and> sublist p (toLocaleLowerCase t)))"
    unfolding pageIdsForPhrase_def by (auto simp: pageMatchesPhrase_iff)
  have 4: "annotationIdsForPhrase
         (st\<lparr>annotationsTable :=
               map (\<lambda>a. a\<lparr>annot_body_terms := bt a, annot_comment_terms := ct a\<rparr>)
                 (annotationsTable st)\<rparr>) p
       = annotationIdsForPhrase st p"
    by (simp add: annotationIdsForPhrase_def) (rule phrase_scan_ignores_annotation_indexes)
  have 5: "pageIdsForPhrase
         (st\<lparr>pagesTable :=
               map (\<lambda>pg. pg\<lparr>page_terms := f pg, page_urlTerms := g pg, page_titleTerms := h pg\<rparr>)
                 (pagesTable st)\<rparr>) p
       = pageIdsForPhrase st p"
    by (simp add: pageIdsForPhrase_def) (rule phrase_scan_ignores_page_indexes)
  have 6: "queryAnnotationsByTerms st ts ps
       = bulkGet (annotationsTable st)
           (intersectResults
              (map (annotationIdsForTerm st) ts @ map (annotationIdsForPhrase st) ps))"
    by (simp add: queryAnnotationsByTerms_def annotationResultsPerTerm_def)
  have 7: "map hit_id (queryPagesByTerms st swm ts ps)
       = intersectResults (map (pageIdsForTerm st swm) ts @ map (pageIdsForPhrase st) ps)"
    by (simp add: queryPagesByTerms_def pageResultsPerTerm_def Let_def o_def)
  from 1 2 3 4 5 6 7 show ?thesis
    by blast
qed

theorem phrase_matching_scans_text_witness:
  "''hello world'' \<in> set (phrases (splitQueryIntoTerms ([dquote] @ ''Hello World'' @ [dquote])))
   \<and> toLocaleLowerCase ''hello world'' = ''hello world''
   \<and> (''page1/#1'' \<in> set (annotationIdsForPhrase exampleStore ''hello world'') \<longleftrightarrow>
        (\<exists>a \<in> set (annotationsTable exampleStore). annot_url a = ''page1/#1''
           \<and> ((\<exists>c. annot_comment a = Some c \<and> sublist ''hello world'' (toLocaleLowerCase c))
              \<or> (\<exists>b. annot_body a = Some b \<and> sublist ''hello world'' (toLocaleLowerCase b)))))
   \<and> annotationIdsForPhrase exampleStore ''hello world'' = [''page1/#1'']
   \<and> pageIdsForPhrase exampleStore ''hello world'' = [''page1'']"
proof -
  have h: "''hello world''
             \<in> set (phrases (splitQueryIntoTerms ([dquote] @ ''Hello World'' @ [dquote])))"
    by code_simp
  have a: "annotationIdsForPhrase exampleStore ''hello world'' = [''page1/#1'']"
    by code_simp
  have b: "pageIdsForPhrase exampleStore ''hello world'' = [''page1'']"
    by code_simp
  from h a b phrase_matching_scans_text [OF h, of "''page1/#1''" exampleStore] show ?thesis
    by blast
qed

section \<open>Properties of the timestamp reconciliation\<close>

lemma Max_insert_max:
  fixes a b :: int
  shows "finite S \<Longrightarrow> Max (insert (max a b) S) = Max (insert a (insert b S))"
  by (cases "S = {}") (simp_all add: max.assoc max.commute max.left_commute)

lemma Max_insert_Max_Un:
  fixes a :: int
  assumes "finite A" "finite B"
  shows "Max (insert (Max (insert a A)) B) = Max (insert a (A \<union> B))"
proof (cases "B = {}")
  case True
  then show ?thesis by simp
next
  case False
  have "Max (insert a (A \<union> B)) = Max (insert a A \<union> B)"
    by simp
  also have "\<dots> = max (Max (insert a A)) (Max B)"
    using assms False by (intro Max_Un) simp_all
  also have "\<dots> = Max (insert (Max (insert a A)) B)"
    using assms False by simp
  finally show ?thesis by simp
qed

lemma getOrZero_track:
  "getOrZero (trackLatestTimestamp r m) u
     = (if row_url r = u then max (row_time r) (getOrZero m u) else getOrZero m u)"
  by (simp add: getOrZero_def trackLatestTimestamp_def)

lemma getOrZero_fold_track:
  "getOrZero (fold trackLatestTimestamp rows m) u
     = Max (insert (getOrZero m u) (row_time ` {r \<in> set rows. row_url r = u}))"
proof (induction rows arbitrary: m)
  case Nil
  show ?case by simp
next
  case (Cons r rows)
  let ?S = "row_time ` {x \<in> set rows. row_url x = u}"
  have fin: "finite ?S" by simp
  show ?case
  proof (cases "row_url r = u")
    case True
    then have S: "row_time ` {x \<in> set (r # rows). row_url x = u} = insert (row_time r) ?S"
      by auto
    have "getOrZero (fold trackLatestTimestamp (r # rows) m) u
            = Max (insert (max (row_time r) (getOrZero m u)) ?S)"
      using Cons.IH [of "trackLatestTimestamp r m"] True by (simp add: getOrZero_track)
    also have "\<dots> = Max (insert (row_time r) (insert (getOrZero m u) ?S))"
      using fin by (rule Max_insert_max)
    also have "\<dots> = Max (insert (getOrZero m u) (insert (row_time r) ?S))"
      by (simp only: insert_commute)
    finally show ?thesis
      unfolding S .
  next
    case False
    then have S: "row_time ` {x \<in> set (r # rows). row_url x = u} = ?S"
      by auto
    show ?thesis
      using Cons.IH [of "trackLatestTimestamp r m"] False
      unfolding S by (simp add: getOrZero_track)
  qed
qed

lemma set_queryTimestamps:
  "set (queryTimestamps ids table) = {r \<in> set table. row_url r \<in> set ids}"
  by (auto simp: queryTimestamps_def)

lemma latest_of_matching:
  assumes "u \<in> set ids"
  shows "getOrZero (fold trackLatestTimestamp (queryTimestamps ids bs)
                      (fold trackLatestTimestamp (queryTimestamps ids vs) Map.empty)) u
         = Max (insert 0 (row_time ` {r \<in> set vs \<union> set bs. row_url r = u}))"
proof -
  let ?V = "row_time ` {r \<in> set vs. row_url r = u}"
  let ?B = "row_time ` {r \<in> set bs. row_url r = u}"
  have V: "row_time ` {r \<in> set (queryTimestamps ids vs). row_url r = u} = ?V"
    using assms by (auto simp: set_queryTimestamps)
  have B: "row_time ` {r \<in> set (queryTimestamps ids bs). row_url r = u} = ?B"
    using assms by (auto simp: set_queryTimestamps)
  have U: "row_time ` {r \<in> set vs \<union> set bs. row_url r = u} = ?V \<union> ?B"
    by auto
  have "getOrZero (fold trackLatestTimestamp (queryTimestamps ids bs)
                      (fold trackLatestTimestamp (queryTimestamps ids vs) Map.empty)) u
        = Max (insert (Max (insert 0 ?V)) ?B)"
    by (simp add: getOrZero_fold_track V B) (simp add: getOrZero_def)
  also have "\<dots> = Max (insert 0 (?V \<union> ?B))"
    by (rule Max_insert_Max_Un) simp_all
  finally show ?thesis
    unfolding U .
qed

text \<open>
  C6. For every page identifier that survives the intersection, \<open>queryPagesByTerms\<close>
  returns the identifier paired with the maximum \<open>time\<close> over all visit and bookmark
  rows of that page, and with 0 when the page has neither. Timestamps are epoch
  milliseconds of recorded events, hence not negative.
\<close>

theorem queryPagesByTerms_latestTimestamp:
  assumes nonneg: "\<forall>r \<in> set (visitsTable st) \<union> set (bookmarksTable st). 0 \<le> row_time r"
  shows "queryPagesByTerms st swm ts ps
         = map (\<lambda>id. \<lparr>hit_id = id,
                       latestTimestamp =
                         (let T = row_time ` {r \<in> set (visitsTable st) \<union> set (bookmarksTable st).
                                               row_url r = id}
                          in if T = {} then 0 else Max T)\<rparr>)
             (intersectResults (pageResultsPerTerm st swm ts ps))"
proof -
  let ?ids = "intersectResults (pageResultsPerTerm st swm ts ps)"
  have key: "Max (insert 0 T) = (if T = {} then 0 else Max T)"
    if "finite T" "\<forall>t \<in> T. 0 \<le> t" for T :: "int set"
  proof (cases "T = {}")
    case True
    then show ?thesis by simp
  next
    case False
    with that have "0 \<le> Max T"
      by (meson Max_in)
    with False that show ?thesis
      by (simp add: max_def)
  qed
  show ?thesis
    unfolding queryPagesByTerms_def Let_def
  proof (rule map_cong [OF refl])
    fix u assume u: "u \<in> set ?ids"
    let ?T = "row_time ` {r \<in> set (visitsTable st) \<union> set (bookmarksTable st). row_url r = u}"
    have "finite ?T" by simp
    moreover have "\<forall>t \<in> ?T. 0 \<le> t" using nonneg by auto
    ultimately have "Max (insert 0 ?T) = (if ?T = {} then 0 else Max ?T)"
      by (rule key)
    then show "\<lparr>hit_id = u, latestTimestamp = getOrZero
                 (fold trackLatestTimestamp (queryTimestamps ?ids (bookmarksTable st))
                    (fold trackLatestTimestamp (queryTimestamps ?ids (visitsTable st)) Map.empty)) u\<rparr>
               = \<lparr>hit_id = u, latestTimestamp = (if ?T = {} then 0 else Max ?T)\<rparr>"
      using latest_of_matching [OF u, of "bookmarksTable st" "visitsTable st"] by simp
  qed
qed

theorem queryPagesByTerms_latestTimestamp_witness:
  "list_all (\<lambda>r. 0 \<le> row_time r) (visitsTable exampleStore @ bookmarksTable exampleStore)
   \<and> queryPagesByTerms exampleStore False [''hello''] []
       = map (\<lambda>id. \<lparr>hit_id = id,
                     latestTimestamp =
                       (let T = row_time ` {r \<in> set (visitsTable exampleStore)
                                                  \<union> set (bookmarksTable exampleStore).
                                             row_url r = id}
                        in if T = {} then 0 else Max T)\<rparr>)
           (intersectResults (pageResultsPerTerm exampleStore False [''hello''] []))
   \<and> queryPagesByTerms exampleStore False [''hello''] []
       = [\<lparr>hit_id = ''page1'', latestTimestamp = 40\<rparr>]"
proof -
  have h: "\<forall>r \<in> set (visitsTable exampleStore) \<union> set (bookmarksTable exampleStore).
             0 \<le> row_time r"
    by (simp add: exampleStore_def)
  then have l: "list_all (\<lambda>r. 0 \<le> row_time r)
                  (visitsTable exampleStore @ bookmarksTable exampleStore)"
    by (auto simp: list_all_iff)
  have v: "queryPagesByTerms exampleStore False [''hello''] []
             = [\<lparr>hit_id = ''page1'', latestTimestamp = 40\<rparr>]"
    by code_simp
  from l queryPagesByTerms_latestTimestamp [OF h, of False "[''hello'']" "[]"] v
  show ?thesis
    by blast
qed

section \<open>Properties of the ranker\<close>

lemma insertByCmp_compareEntries:
  "insertByCmp compareEntries x ys = insort_key (\<lambda>p. - sortKeyOf (snd p)) x ys"
  by (induction ys) (simp_all add: compareEntries_def)

lemma sortUnifiedBlankSearchResult_sort_key:
  "sortUnifiedBlankSearchResult r = sort_key (\<lambda>p. - sortKeyOf (snd p)) r"
proof -
  have "insertByCmp compareEntries = insort_key (\<lambda>p. - sortKeyOf (snd p))"
    by (intro ext) (rule insertByCmp_compareEntries)
  then show ?thesis
    by (simp add: sortUnifiedBlankSearchResult_def arraySort_def sort_key_def)
qed

lemma sorted_desc_sortUnifiedBlankSearchResult:
  "sorted_wrt (\<lambda>x y. sortKeyOf (snd y) \<le> sortKeyOf (snd x)) (sortUnifiedBlankSearchResult r)"
proof -
  have "sorted (map (\<lambda>p. - sortKeyOf (snd p)) (sortUnifiedBlankSearchResult r))"
    unfolding sortUnifiedBlankSearchResult_sort_key by (rule sorted_sort_key)
  then show ?thesis
    by (simp add: sorted_map)
qed

lemma mset_sortUnifiedBlankSearchResult:
  "mset (sortUnifiedBlankSearchResult r) = mset r"
  unfolding sortUnifiedBlankSearchResult_sort_key by simp

lemma stable_sortUnifiedBlankSearchResult:
  "filter (\<lambda>x. sortKeyOf (snd x) = t) (sortUnifiedBlankSearchResult r)
     = filter (\<lambda>x. sortKeyOf (snd x) = t) r"
proof -
  have "filter (\<lambda>x. - sortKeyOf (snd x) = - t) (sort_key (\<lambda>p. - sortKeyOf (snd p)) r)
          = filter (\<lambda>x. - sortKeyOf (snd x) = - t) r"
    by (rule sort_key_stable)
  then show ?thesis
    unfolding sortUnifiedBlankSearchResult_sort_key by simp
qed

lemma newestFirst_head_is_Max:
  assumes "newestFirst (a # as)"
  shows "Max (annot_lastEdited ` set (a # as)) = annot_lastEdited a"
proof (rule Max_eqI)
  show "finite (annot_lastEdited ` set (a # as))" by simp
next
  fix t assume "t \<in> annot_lastEdited ` set (a # as)"
  with assms show "t \<le> annot_lastEdited a"
    by (auto simp: newestFirst_def)
next
  show "annot_lastEdited a \<in> annot_lastEdited ` set (a # as)" by simp
qed

lemma sortKeyOf_is_activityTimestamp:
  assumes "newestFirst (annotations e)"
  shows "sortKeyOf e = activityTimestamp_spec e"
proof (cases "annotations e")
  case Nil
  then show ?thesis
    by (simp add: sortKeyOf_def activityTimestamp_spec_def)
next
  case (Cons a as)
  with assms have "Max (annot_lastEdited ` set (annotations e)) = annot_lastEdited a"
    using newestFirst_head_is_Max by simp
  with Cons show ?thesis
    by (simp add: sortKeyOf_def activityTimestamp_spec_def)
qed

text \<open>
  C8. \<open>sortUnifiedBlankSearchResult\<close> returns the (page identifier, entry) pairs of its
  argument sorted descending by activity timestamp, the maximum of the entry's page-level
  timestamp and its newest annotation's edit time (0 for an empty annotation list); the
  sort is stable; entries with activity timestamps 100, 50, 200 come out in the order
  200, 100, 50. The comparator reads the first annotation of an entry, which is the newest
  one in the entries a search produces: their annotation lists are newest first.
\<close>

theorem sortUnifiedBlankSearchResult_ranks:
  assumes inv: "\<forall>(k, e) \<in> set r. newestFirst (annotations e)"
  shows "sorted_wrt (\<lambda>x y. activityTimestamp_spec (snd y) \<le> activityTimestamp_spec (snd x))
           (sortUnifiedBlankSearchResult r)
       \<and> mset (sortUnifiedBlankSearchResult r) = mset r
       \<and> (\<forall>t. filter (\<lambda>x. activityTimestamp_spec (snd x) = t) (sortUnifiedBlankSearchResult r)
               = filter (\<lambda>x. activityTimestamp_spec (snd x) = t) r)
       \<and> (r = [x, y, z] \<and> map (\<lambda>x. activityTimestamp_spec (snd x)) r = [100, 50, 200]
            \<longrightarrow> sortUnifiedBlankSearchResult r = [z, x, y])"
proof -
  have key: "sortKeyOf (snd x) = activityTimestamp_spec (snd x)" if "x \<in> set r" for x
    using that inv by (auto intro!: sortKeyOf_is_activityTimestamp)
  have set_eq: "set (sortUnifiedBlankSearchResult r) = set r"
    using mset_sortUnifiedBlankSearchResult [of r] by (metis set_mset_mset)
  have s: "sorted_wrt (\<lambda>x y. activityTimestamp_spec (snd y) \<le> activityTimestamp_spec (snd x))
             (sortUnifiedBlankSearchResult r)"
    using sorted_desc_sortUnifiedBlankSearchResult [of r]
    by (rule sorted_wrt_mono_rel [rotated]) (simp add: key set_eq)
  have st: "filter (\<lambda>x. activityTimestamp_spec (snd x) = t) (sortUnifiedBlankSearchResult r)
               = filter (\<lambda>x. activityTimestamp_spec (snd x) = t) r" for t
  proof -
    have "filter (\<lambda>x. activityTimestamp_spec (snd x) = t) (sortUnifiedBlankSearchResult r)
            = filter (\<lambda>x. sortKeyOf (snd x) = t) (sortUnifiedBlankSearchResult r)"
      by (rule filter_cong) (simp_all add: key set_eq)
    also have "\<dots> = filter (\<lambda>x. sortKeyOf (snd x) = t) r"
      by (rule stable_sortUnifiedBlankSearchResult)
    also have "\<dots> = filter (\<lambda>x. activityTimestamp_spec (snd x) = t) r"
      by (rule filter_cong) (simp_all add: key)
    finally show ?thesis .
  qed
  have ex: "sortUnifiedBlankSearchResult r = [z, x, y]"
    if "r = [x, y, z] \<and> map (\<lambda>x. activityTimestamp_spec (snd x)) r = [100, 50, 200]"
  proof -
    from that key have "sortKeyOf (snd x) = 100" "sortKeyOf (snd y) = 50" "sortKeyOf (snd z) = 200"
      by auto
    with that show ?thesis
      by (simp add: sortUnifiedBlankSearchResult_def arraySort_def compareEntries_def)
  qed
  from s mset_sortUnifiedBlankSearchResult st ex show ?thesis
    by blast
qed

theorem sortUnifiedBlankSearchResult_ranks_witness:
  "list_all (\<lambda>x. newestFirst (annotations (snd x))) exampleRanking
   \<and> sorted_wrt (\<lambda>x y. activityTimestamp_spec (snd y) \<le> activityTimestamp_spec (snd x))
        (sortUnifiedBlankSearchResult exampleRanking)
   \<and> mset (sortUnifiedBlankSearchResult exampleRanking) = mset exampleRanking
   \<and> map fst (sortUnifiedBlankSearchResult exampleRanking) = [''c'', ''a'', ''b'']"
proof -
  have l: "list_all (\<lambda>x. newestFirst (annotations (snd x))) exampleRanking"
    by (simp add: exampleRanking_def newestFirst_def exampleNote_def exampleHighlight_def)
  then have h: "\<forall>(k, e) \<in> set exampleRanking. newestFirst (annotations e)"
    by (auto simp: list_all_iff)
  have v: "map fst (sortUnifiedBlankSearchResult exampleRanking) = [''c'', ''a'', ''b'']"
    by code_simp
  from l v sortUnifiedBlankSearchResult_ranks [OF h] show ?thesis
    by blast
qed

text \<open>
  C10. \<open>sortUnifiedBlankSearchResult\<close> does not mutate its argument: it sorts a fresh
  copy. After the call the collection passed in holds the same pairs in the same order,
  every other array of the heap is unchanged, and the sorted pairs are in a newly allocated
  array.
\<close>

theorem sortUnifiedBlankSearchResult_leaves_argument:
  assumes ok: "heapOk h" and arg: "cells h a = Some xs"
  shows "\<exists>c h'. sortUnifiedBlankSearchResult_heap h a = Some (c, h')
           \<and> c \<noteq> a
           \<and> cells h' a = Some xs
           \<and> cells h' c = Some (sortUnifiedBlankSearchResult xs)
           \<and> (\<forall>b. b \<noteq> c \<longrightarrow> cells h' b = cells h b)"
proof -
  from ok arg have "a < nextFree h"
    by (auto simp: heapOk_def)
  then have fresh: "nextFree h \<noteq> a"
    by simp
  let ?h' = "h\<lparr>cells := (cells h)(nextFree h \<mapsto> arraySort compareEntries xs),
               nextFree := Suc (nextFree h)\<rparr>"
  have "sortUnifiedBlankSearchResult_heap h a = Some (nextFree h, ?h')"
    using arg by (simp add: sortUnifiedBlankSearchResult_heap_def spread_def sortInPlace_def)
  moreover have "cells ?h' a = Some xs"
    using arg fresh by simp
  moreover have "cells ?h' (nextFree h) = Some (sortUnifiedBlankSearchResult xs)"
    by (simp add: sortUnifiedBlankSearchResult_def)
  moreover have "\<forall>b. b \<noteq> nextFree h \<longrightarrow> cells ?h' b = cells h b"
    by simp
  ultimately show ?thesis
    using fresh by blast
qed

theorem sortUnifiedBlankSearchResult_leaves_argument_witness:
  "heapOk \<lparr>cells = [0 \<mapsto> exampleRanking], nextFree = 1\<rparr>
   \<and> cells \<lparr>cells = [0 \<mapsto> exampleRanking], nextFree = 1\<rparr> 0 = Some exampleRanking
   \<and> (\<exists>c h'. sortUnifiedBlankSearchResult_heap \<lparr>cells = [0 \<mapsto> exampleRanking], nextFree = 1\<rparr> 0
                = Some (c, h')
           \<and> c \<noteq> 0
           \<and> cells h' 0 = Some exampleRanking
           \<and> cells h' c = Some (sortUnifiedBlankSearchResult exampleRanking))"
proof -
  have ok: "heapOk \<lparr>cells = [0 \<mapsto> exampleRanking], nextFree = 1\<rparr>"
    by (simp add: heapOk_def)
  have arg: "cells \<lparr>cells = [0 \<mapsto> exampleRanking], nextFree = 1\<rparr> 0 = Some exampleRanking"
    by simp
  from ok arg sortUnifiedBlankSearchResult_leaves_argument [OF ok arg] show ?thesis
    by blast
qed

section \<open>Properties of the search results\<close>

lemma upsertEntry_inv:
  assumes "\<forall>x \<in> set rd. P (fst x) (snd x)" and "P k d" and "\<forall>e. P k e \<longrightarrow> P k (f e)"
  shows "\<forall>x \<in> set (upsertEntry k f d rd). P (fst x) (snd x)"
  using assms
proof (induction rd)
  case Nil
  then show ?case by simp
next
  case (Cons y rd)
  obtain k' e where y: "y = (k', e)" by (cases y)
  from Cons.prems have e: "P k' e" and rest: "\<forall>x \<in> set rd. P (fst x) (snd x)"
    by (simp_all add: y)
  show ?case
  proof (cases "k' = k")
    case True
    with e Cons.prems(3) have "P k' (f e)" by simp
    with True rest show ?thesis by (simp add: y)
  next
    case False
    from Cons.IH [OF rest Cons.prems(2,3)] e False show ?thesis
      by (simp add: y)
  qed
qed

lemma set_insertAnnotation: "set (insertAnnotation a as) = insert a (set as)"
  by (induction as) auto

lemma newestFirst_insertAnnotation:
  "newestFirst as \<Longrightarrow> newestFirst (insertAnnotation a as)"
  unfolding newestFirst_def
  by (induction as) (auto simp: set_insertAnnotation)

lemma addPageRow_inv:
  assumes "\<forall>x \<in> set rd. entryOk st (fst x) (snd x)"
  shows "\<forall>x \<in> set (addPageRow r rd). entryOk st (fst x) (snd x)"
  unfolding addPageRow_def
  by (rule upsertEntry_inv [OF assms]) (simp_all add: entryOk_def newestFirst_def)

lemma addPageHit_inv:
  assumes "\<forall>x \<in> set rd. entryOk st (fst x) (snd x)"
  shows "\<forall>x \<in> set (addPageHit h rd). entryOk st (fst x) (snd x)"
  unfolding addPageHit_def
  by (rule upsertEntry_inv [OF assms]) (simp_all add: entryOk_def newestFirst_def)

lemma addAnnotation_inv:
  assumes "\<forall>x \<in> set rd. entryOk st (fst x) (snd x)"
    and "a \<in> set (annotationsTable st)"
  shows "\<forall>x \<in> set (addAnnotation a rd). entryOk st (fst x) (snd x)"
  unfolding addAnnotation_def
proof (rule upsertEntry_inv [OF assms(1)])
  show "entryOk st (annot_pageUrl a) \<lparr>latestPageTimestamp = 0, annotations = [a]\<rparr>"
    using assms(2) by (simp add: entryOk_def newestFirst_def)
next
  show "\<forall>e. entryOk st (annot_pageUrl a) e \<longrightarrow>
           entryOk st (annot_pageUrl a) (e\<lparr>annotations := insertAnnotation a (annotations e)\<rparr>)"
    using assms(2)
    by (auto simp: entryOk_def set_insertAnnotation newestFirst_insertAnnotation)
qed

lemma fold_addPageRow_inv:
  "\<forall>x \<in> set rd. entryOk st (fst x) (snd x)
     \<Longrightarrow> \<forall>x \<in> set (fold addPageRow rs rd). entryOk st (fst x) (snd x)"
proof (induction rs arbitrary: rd)
  case Nil
  then show ?case by simp
next
  case (Cons r rs)
  from Cons.prems have "\<forall>x \<in> set (addPageRow r rd). entryOk st (fst x) (snd x)"
    by (rule addPageRow_inv)
  then have "\<forall>x \<in> set (fold addPageRow rs (addPageRow r rd)). entryOk st (fst x) (snd x)"
    by (rule Cons.IH)
  then show ?case by simp
qed

lemma fold_addPageHit_inv:
  "\<forall>x \<in> set rd. entryOk st (fst x) (snd x)
     \<Longrightarrow> \<forall>x \<in> set (fold addPageHit hs rd). entryOk st (fst x) (snd x)"
proof (induction hs arbitrary: rd)
  case Nil
  then show ?case by simp
next
  case (Cons h hs)
  from Cons.prems have "\<forall>x \<in> set (addPageHit h rd). entryOk st (fst x) (snd x)"
    by (rule addPageHit_inv)
  then have "\<forall>x \<in> set (fold addPageHit hs (addPageHit h rd)). entryOk st (fst x) (snd x)"
    by (rule Cons.IH)
  then show ?case by simp
qed

lemma fold_addAnnotation_inv:
  "\<forall>x \<in> set rd. entryOk st (fst x) (snd x)
     \<Longrightarrow> \<forall>a \<in> set as. a \<in> set (annotationsTable st)
     \<Longrightarrow> \<forall>x \<in> set (fold addAnnotation as rd). entryOk st (fst x) (snd x)"
proof (induction as arbitrary: rd)
  case Nil
  then show ?case by simp
next
  case (Cons a as)
  from Cons.prems have "\<forall>x \<in> set (addAnnotation a rd). entryOk st (fst x) (snd x)"
    by (intro addAnnotation_inv) simp_all
  moreover from Cons.prems(2) have "\<forall>b \<in> set as. b \<in> set (annotationsTable st)"
    by simp
  ultimately
  have "\<forall>x \<in> set (fold addAnnotation as (addAnnotation a rd)). entryOk st (fst x) (snd x)"
    by (rule Cons.IH)
  then show ?case by simp
qed

lemma aggregateWindow_inv: "\<forall>x \<in> set (aggregateWindow st p). entryOk st (fst x) (snd x)"
  unfolding aggregateWindow_def Let_def
  by (intro fold_addAnnotation_inv fold_addPageRow_inv) simp_all

lemma set_foundRows: "set (foundRows xs) = {a. Some a \<in> set xs}"
  by (induction xs rule: foundRows.induct) auto

lemma bulkGet_in_table: "Some a \<in> set (bulkGet table ids) \<Longrightarrow> a \<in> set table"
proof -
  assume "Some a \<in> set (bulkGet table ids)"
  then obtain k where "find (\<lambda>a. annot_url a = k) table = Some a"
    by (auto simp: bulkGet_def)
  then show "a \<in> set table"
    by (metis find_Some_iff nth_mem)
qed

lemma unifiedTermsSearch_inv:
  "\<forall>x \<in> set (unifiedTermsSearch st query). entryOk st (fst x) (snd x)"
proof -
  have "\<forall>a \<in> set (foundRows (queryAnnotationsByTerms st ts ps)). a \<in> set (annotationsTable st)"
    for ts ps
    by (auto simp: set_foundRows queryAnnotationsByTerms_def Let_def dest: bulkGet_in_table)
  then show ?thesis
    unfolding unifiedTermsSearch_def Let_def
    by (intro fold_addAnnotation_inv fold_addPageHit_inv) simp_all
qed

text \<open>
  C9. In every entry a search call produces, by blank search or by terms search, the
  annotation list holds only annotations of the store whose page identifier is the entry's
  key, and the list is ordered by \<open>lastEdited\<close> descending, so that its first element, if
  any, is the newest one. The annotation-identifier list of an entry is
  \<open>map annot_url (annotations e)\<close>.
\<close>

theorem pageResultEntry_invariant:
  assumes "(unifiedBlankSearch st p = Inr res \<and> (k, e) \<in> set (resultDataByPage res))
           \<or> (k, e) \<in> set (unifiedTermsSearch st query)"
  shows "(\<forall>a \<in> set (annotations e). annot_pageUrl a = k \<and> a \<in> set (annotationsTable st))
       \<and> sorted_wrt (\<lambda>a b. annot_lastEdited b \<le> annot_lastEdited a) (annotations e)
       \<and> (\<forall>a as. annotations e = a # as \<longrightarrow>
             annot_lastEdited a = Max (annot_lastEdited ` set (annotations e)))"
proof -
  have ok: "entryOk st k e"
    using assms
  proof
    assume b: "unifiedBlankSearch st p = Inr res \<and> (k, e) \<in> set (resultDataByPage res)"
    then have "resultDataByPage res = aggregateWindow st p"
      by (auto simp: unifiedBlankSearch_def split: if_splits)
    with b aggregateWindow_inv [of st p] show ?thesis
      by fastforce
  next
    assume "(k, e) \<in> set (unifiedTermsSearch st query)"
    with unifiedTermsSearch_inv [of st query] show ?thesis
      by fastforce
  qed
  then have nf: "newestFirst (annotations e)"
    by (simp add: entryOk_def)
  have "annot_lastEdited a = Max (annot_lastEdited ` set (annotations e))"
    if "annotations e = a # as" for a as
    using nf that newestFirst_head_is_Max [of a as] by simp
  with ok nf show ?thesis
    by (auto simp: entryOk_def newestFirst_def)
qed

theorem pageResultEntry_invariant_witness:
  "unifiedBlankSearch exampleStore \<lparr>fromWhen = Some 0, untilWhen = 100, daysToSearch = 1\<rparr>
     = Inr \<lparr>resultDataByPage =
              [(''page1'', \<lparr>latestPageTimestamp = 40,
                            annotations = [exampleNote, exampleHighlight]\<rparr>)],
            resultsExhausted = True\<rparr>
   \<and> unifiedTermsSearch exampleStore ''hello''
       = [(''page1'', \<lparr>latestPageTimestamp = 40, annotations = [exampleHighlight]\<rparr>)]
   \<and> sorted_wrt (\<lambda>a b. annot_lastEdited b \<le> annot_lastEdited a) [exampleNote, exampleHighlight]
   \<and> list_all (\<lambda>a. annot_pageUrl a = ''page1'' \<and> a \<in> set (annotationsTable exampleStore))
        [exampleNote, exampleHighlight]
   \<and> list_all (\<lambda>a. annot_pageUrl a = ''page1'' \<and> a \<in> set (annotationsTable exampleStore))
        [exampleHighlight]"
proof -
  let ?p = "\<lparr>fromWhen = Some 0, untilWhen = 100, daysToSearch = 1\<rparr>"
  let ?e = "\<lparr>latestPageTimestamp = 40, annotations = [exampleNote, exampleHighlight]\<rparr>"
  let ?res = "\<lparr>resultDataByPage = [(''page1'', ?e)], resultsExhausted = True\<rparr>"
  let ?e' = "\<lparr>latestPageTimestamp = 40, annotations = [exampleHighlight]\<rparr>"
  have run: "unifiedBlankSearch exampleStore ?p = Inr ?res"
    by code_simp
  have mem: "unifiedBlankSearch exampleStore ?p = Inr ?res
               \<and> (''page1'', ?e) \<in> set (resultDataByPage ?res)"
    using run by simp
  have run': "unifiedTermsSearch exampleStore ''hello'' = [(''page1'', ?e')]"
    by code_simp
  then have mem': "(''page1'', ?e') \<in> set (unifiedTermsSearch exampleStore ''hello'')"
    by simp
  from pageResultEntry_invariant [OF disjI1, OF mem]
  have 1: "(\<forall>a \<in> set [exampleNote, exampleHighlight].
            annot_pageUrl a = ''page1'' \<and> a \<in> set (annotationsTable exampleStore))
        \<and> sorted_wrt (\<lambda>a b. annot_lastEdited b \<le> annot_lastEdited a)
            [exampleNote, exampleHighlight]"
    by simp
  from pageResultEntry_invariant [OF disjI2, OF mem']
  have 2: "\<forall>a \<in> set [exampleHighlight].
            annot_pageUrl a = ''page1'' \<and> a \<in> set (annotationsTable exampleStore)"
    by simp
  from run run' 1 2 show ?thesis
    by (simp add: list_all_iff)
qed



lemma searchLowerBound_above_fromWhen: "fromWhenOrDefault p \<le> searchLowerBound p"
  by (simp add: searchLowerBound_def windowLowerBound_def fromWhenOrDefault_def
      split: option.splits)




end
